theory Spec2Isabelle
  imports Main
begin

section \<open>The circuit breaker of lasier (asyncio engine)\<close>

text \<open>
  The development embeds \<^verbatim>\<open>src/lasier/circuit_breaker/asyncio.py\<close>. The class
  \<^verbatim>\<open>CircuitBreaker\<close> owns no mutable state: everything it changes lives in the
  cache it is bound to. Every coroutine of the class becomes a function that takes the
  world (the cache contents and the list of calls the engine has made so far) and returns
  its result with the world after it.

  Two conventions hold throughout.
  \<^item> Time does not advance inside a call: a time-to-live is recorded next to the value it
    belongs to, as the time the key has left; \<open>elapse\<close> lets time pass between calls.
  \<^item> \<^verbatim>\<open>asyncio.gather(a, b)\<close> is run as \<^verbatim>\<open>a\<close> to completion, then \<^verbatim>\<open>b\<close>
    (the order in which gather schedules its arguments). For \<^verbatim>\<open>open_circuit\<close>, whose
    two deletions are issued together, the schedules of a call list in addition the other
    order in which the cache may perform them.
\<close>

subsection \<open>Keys, values and the record of calls\<close>

text \<open>
  A key is Python's \<^verbatim>\<open>Optional[str]\<close>: the rule's \<^verbatim>\<open>request_cache_key\<close> may be
  \<^verbatim>\<open>None\<close>, and the engine passes it to the cache as it is. The values the engine
  stores are integers (the flag \<open>1\<close> and the two counters). A timeout is a number of
  seconds.
\<close>

type_synonym key = "string option"
type_synonym timeout = int
type_synonym entry = "int \<times> timeout option"
type_synonym store = "key \<rightharpoonup> entry"

datatype event =
    CacheGet key
  | CacheSet key int timeout
  | CacheDelete key
  | CacheIncr key
  | CacheExpire key timeout
  | CacheAdd key int timeout
  | NotifyOpenCircuit
  | NotifyMaxFailuresExceeded
  | LogIncreaseFailures int int
  | ProtectedCall

record world =
  cache :: store
  trace :: "event list"

definition emit :: "event \<Rightarrow> world \<Rightarrow> world" where
  "emit ev w = w\<lparr>trace := trace w @ [ev]\<rparr>"

definition new_events :: "world \<Rightarrow> world \<Rightarrow> event list" where
  "new_events w w' = drop (length (trace w)) (trace w')"

definition counter_value :: "store \<Rightarrow> key \<Rightarrow> int" where
  "counter_value c k = (case c k of None \<Rightarrow> 0 | Some (v, t) \<Rightarrow> v)"

subsection \<open>The cache\<close>

text \<open>
  Modelled from the spec: the cache is an external collaborator and no adapter of it is
  under \<^verbatim>\<open>src/\<close>. The six operations follow the key-value store contract of the
  specification: \<^verbatim>\<open>get\<close> returns the value or nothing, \<^verbatim>\<open>set\<close> writes with an
  expiry, \<^verbatim>\<open>delete\<close> removes and is a no-op on an absent key, \<^verbatim>\<open>incr\<close> increments
  and creates the key at \<open>1\<close> with no TTL, \<^verbatim>\<open>expire\<close> sets the TTL of an existing key,
  \<^verbatim>\<open>add\<close> writes only if the key is absent. Each operation is one atomic step, never
  fails, and is recorded in the trace.
\<close>

definition cache_get :: "key \<Rightarrow> world \<Rightarrow> int option \<times> world" where
  "cache_get k w = (map_option fst (cache w k), emit (CacheGet k) w)"

definition cache_set :: "key \<Rightarrow> int \<Rightarrow> timeout \<Rightarrow> world \<Rightarrow> world" where
  "cache_set k v t w = emit (CacheSet k v t) (w\<lparr>cache := (cache w)(k \<mapsto> (v, Some t))\<rparr>)"

definition cache_delete :: "key \<Rightarrow> world \<Rightarrow> world" where
  "cache_delete k w = emit (CacheDelete k) (w\<lparr>cache := (cache w)(k := None)\<rparr>)"

definition cache_incr :: "key \<Rightarrow> world \<Rightarrow> int \<times> world" where
  "cache_incr k w =
     (case cache w k of
        None \<Rightarrow> (1, emit (CacheIncr k) (w\<lparr>cache := (cache w)(k \<mapsto> (1, None))\<rparr>))
      | Some (v, t) \<Rightarrow> (v + 1, emit (CacheIncr k) (w\<lparr>cache := (cache w)(k \<mapsto> (v + 1, t))\<rparr>)))"

definition cache_expire :: "key \<Rightarrow> timeout \<Rightarrow> world \<Rightarrow> world" where
  "cache_expire k t w =
     (case cache w k of
        None \<Rightarrow> emit (CacheExpire k t) w
      | Some (v, t0) \<Rightarrow> emit (CacheExpire k t) (w\<lparr>cache := (cache w)(k \<mapsto> (v, Some t))\<rparr>))"

definition cache_add :: "key \<Rightarrow> int \<Rightarrow> timeout \<Rightarrow> world \<Rightarrow> world" where
  "cache_add k v t w =
     (case cache w k of
        None \<Rightarrow> emit (CacheAdd k v t) (w\<lparr>cache := (cache w)(k \<mapsto> (v, Some t))\<rparr>)
      | Some e \<Rightarrow> emit (CacheAdd k v t) w)"

text \<open>
  Modelled from the spec: every key carries its own time-to-live, and a key whose
  time-to-live has elapsed is absent. After \<open>d\<close> seconds a key with at most \<open>d\<close> seconds
  left is gone, any other key has \<open>d\<close> seconds less, and a key without TTL stays.
\<close>

definition elapse :: "int \<Rightarrow> world \<Rightarrow> world" where
  "elapse d w =
     w\<lparr>cache := (\<lambda>k. case cache w k of
                          None \<Rightarrow> None
                        | Some (v, None) \<Rightarrow> Some (v, None)
                        | Some (v, Some t) \<Rightarrow> if t \<le> d then None else Some (v, Some (t - d)))\<rparr>"

subsection \<open>The rule and the breaker\<close>

text \<open>
  The rule is a parameter of the engine. Its two \<^verbatim>\<open>should_increase_...\<close> methods take
  no argument and the rule is stateless, so each is a constant of the rule;
  \<^verbatim>\<open>log_increase_failures\<close> is a hook and leaves an event in the trace.
\<close>

record rule =
  failure_cache_key :: string
  request_cache_key :: "string option"
  should_open_circuit :: "int \<Rightarrow> int \<Rightarrow> bool"
  should_increase_failure_count :: bool
  should_increase_request_count :: bool

record 'e circuit_breaker =
  rule :: rule
  circuit_cache_key :: string
  circuit_timeout :: timeout
  failure_timeout :: timeout
  failure_exception :: 'e
  catch_exceptions :: "'e \<Rightarrow> bool"

definition log_increase_failures :: "int \<Rightarrow> int \<Rightarrow> world \<Rightarrow> world" where
  "log_increase_failures total_failures total_requests w =
     emit (LogIncreaseFailures total_failures total_requests) w"

text \<open>
  Modelled from the spec: the base class \<^verbatim>\<open>CircuitBreakerBase\<close> is not under
  \<^verbatim>\<open>src/\<close>. Its two notification hooks are fire-and-forget callbacks; its exception
  filter accepts an exception whose kind is among those configured as countable failures,
  and accepts nothing when the protected operation succeeded.
\<close>

definition notify_open_circuit :: "world \<Rightarrow> world" where
  "notify_open_circuit w = emit NotifyOpenCircuit w"

definition notify_max_failures_exceeded :: "world \<Rightarrow> world" where
  "notify_max_failures_exceeded w = emit NotifyMaxFailuresExceeded w"

definition is_catchable_exception :: "'e circuit_breaker \<Rightarrow> 'e option \<Rightarrow> bool" where
  "is_catchable_exception cb exc_type =
     (case exc_type of None \<Rightarrow> False | Some e \<Rightarrow> catch_exceptions cb e)"

subsection \<open>The engine\<close>

text \<open>
  \<^verbatim>\<open>is_circuit_open\<close> returns \<^verbatim>\<open>cache.get(key) or False\<close>, which every caller uses
  as a condition: the model returns its truth value (absent and \<open>0\<close> are false).
\<close>

definition is_circuit_open :: "'e circuit_breaker \<Rightarrow> world \<Rightarrow> bool \<times> world" where
  "is_circuit_open cb w =
     (case cache_get (Some (circuit_cache_key cb)) w of
        (r, w1) \<Rightarrow> ((case r of None \<Rightarrow> False | Some v \<Rightarrow> v \<noteq> 0), w1))"

definition get_total_failures :: "'e circuit_breaker \<Rightarrow> world \<Rightarrow> int \<times> world" where
  "get_total_failures cb w =
     (case cache_get (Some (failure_cache_key (rule cb))) w of
        (r, w1) \<Rightarrow> ((case r of None \<Rightarrow> 0 | Some v \<Rightarrow> v), w1))"

text \<open>\<^verbatim>\<open>not key\<close> holds of \<^verbatim>\<open>None\<close> and of the empty string.\<close>

definition get_total_requests :: "'e circuit_breaker \<Rightarrow> world \<Rightarrow> int \<times> world" where
  "get_total_requests cb w =
     (if request_cache_key (rule cb) = None \<or> request_cache_key (rule cb) = Some []
      then (0, w)
      else (case cache_get (request_cache_key (rule cb)) w of
              (r, w1) \<Rightarrow> ((case r of None \<Rightarrow> 0 | Some v \<Rightarrow> v), w1)))"

definition open_circuit :: "'e circuit_breaker \<Rightarrow> world \<Rightarrow> world" where
  "open_circuit cb w =
     (let w1 = cache_set (Some (circuit_cache_key cb)) 1 (circuit_timeout cb) w;
          w2 = (if request_cache_key (rule cb) \<noteq> None
                then cache_delete (request_cache_key (rule cb))
                       (cache_delete (Some (failure_cache_key (rule cb))) w1)
                else cache_delete (Some (failure_cache_key (rule cb))) w1)
      in notify_open_circuit w2)"

definition incr :: "key \<Rightarrow> timeout \<Rightarrow> world \<Rightarrow> int \<times> world" where
  "incr k t w =
     (case cache_incr k w of
        (v, w1) \<Rightarrow> (v, if v = 1 then cache_expire k t w1 else w1))"

definition increase_failure_count :: "'e circuit_breaker \<Rightarrow> world \<Rightarrow> world" where
  "increase_failure_count cb w =
     (case is_circuit_open cb w of
        (is_open, w1) \<Rightarrow>
          if is_open \<or> \<not> should_increase_failure_count (rule cb) then w1
          else (case incr (Some (failure_cache_key (rule cb))) (failure_timeout cb) w1 of
                  (total_failures, w2) \<Rightarrow>
                    (case get_total_requests cb w2 of
                       (total_requests, w3) \<Rightarrow>
                         log_increase_failures total_failures total_requests w3)))"

definition increase_request_count :: "'e circuit_breaker \<Rightarrow> world \<Rightarrow> world" where
  "increase_request_count cb w =
     (case is_circuit_open cb w of
        (is_open, w1) \<Rightarrow>
          if is_open \<or> \<not> should_increase_request_count (rule cb) then w1
          else (case incr (request_cache_key (rule cb)) (failure_timeout cb) w1 of
                  (v, w2) \<Rightarrow>
                    if should_increase_failure_count (rule cb)
                    then cache_add (Some (failure_cache_key (rule cb))) 0 (failure_timeout cb) w2
                    else w2))"

text \<open>
  \<^verbatim>\<open>__aenter__\<close> raises the configured exception or returns the breaker;
  \<^verbatim>\<open>__aexit__\<close> raises it or returns \<^verbatim>\<open>None\<close>, which does not suppress the
  exception of the block.
\<close>

definition aenter :: "'e circuit_breaker \<Rightarrow> world \<Rightarrow> ('e + 'e circuit_breaker) \<times> world" where
  "aenter cb w =
     (case is_circuit_open cb w of
        (is_open, w1) \<Rightarrow> (if is_open then Inl (failure_exception cb) else Inr cb, w1))"

definition aexit :: "'e circuit_breaker \<Rightarrow> 'e option \<Rightarrow> world \<Rightarrow> ('e + unit) \<times> world" where
  "aexit cb exc_type w =
     (let w1 = increase_request_count cb w in
      if is_catchable_exception cb exc_type then
        (let w2 = increase_failure_count cb w1 in
         case get_total_failures cb w2 of
           (total_failures, w3) \<Rightarrow>
             (case get_total_requests cb w3 of
                (total_requests, w4) \<Rightarrow>
                  if should_open_circuit (rule cb) total_failures total_requests
                  then (Inl (failure_exception cb),
                        notify_max_failures_exceeded (open_circuit cb w4))
                  else (Inr (), w4)))
      else (Inr (), w1))"

text \<open>
  The scope \<^verbatim>\<open>async with self: body\<close>. The body is the protected operation: it
  returns a value or raises, and it (or whoever runs beside it) may change the cache in
  any way. If \<^verbatim>\<open>__aenter__\<close> raises, neither the body nor \<^verbatim>\<open>__aexit__\<close> runs; an
  exception of \<^verbatim>\<open>__aexit__\<close> replaces the outcome of the body.
\<close>

definition guarded ::
  "'e circuit_breaker \<Rightarrow> (store \<Rightarrow> ('e + 'a) \<times> store) \<Rightarrow> world \<Rightarrow> ('e + 'a) \<times> world" where
  "guarded cb body w =
     (case aenter cb w of
        (Inl e, w1) \<Rightarrow> (Inl e, w1)
      | (Inr _, w1) \<Rightarrow>
          (case body (cache (emit ProtectedCall w1)) of
             (r, c) \<Rightarrow>
               (case aexit cb (case r of Inl e \<Rightarrow> Some e | Inr v \<Rightarrow> None)
                       ((emit ProtectedCall w1)\<lparr>cache := c\<rparr>) of
                  (Inl e', w3) \<Rightarrow> (Inl e', w3)
                | (Inr _, w3) \<Rightarrow> (r, w3))))"

text \<open>\<^verbatim>\<open>__call__\<close>: the decorator; \<open>inner\<close> is the wrapped form of \<open>func\<close>.\<close>

definition inner ::
  "'e circuit_breaker \<Rightarrow> ('x \<Rightarrow> store \<Rightarrow> ('e + 'a) \<times> store) \<Rightarrow> 'x \<Rightarrow> world \<Rightarrow> ('e + 'a) \<times> world"
  where
  "inner cb func args w = guarded cb (func args) w"

definition flag_truthy :: "'e circuit_breaker \<Rightarrow> store \<Rightarrow> bool" where
  "flag_truthy cb c = (counter_value c (Some (circuit_cache_key cb)) \<noteq> 0)"

definition ttl_of :: "store \<Rightarrow> key \<Rightarrow> timeout option" where
  "ttl_of c k = (case c k of None \<Rightarrow> None | Some (v, t) \<Rightarrow> t)"

subsection \<open>Racing callers of \<open>open_circuit\<close>\<close>

text \<open>
  \<^verbatim>\<open>open_circuit\<close> gives control away at each of its cache calls, so two callers that
  race run their steps interleaved. The steps of one call, with \<open>open_circuit_steps\<close> their
  order in the source:
\<close>

datatype step = SetFlag | DeleteFailures | DeleteRequests | Notify

fun run_step :: "'e circuit_breaker \<Rightarrow> step \<Rightarrow> world \<Rightarrow> world" where
  "run_step cb SetFlag w = cache_set (Some (circuit_cache_key cb)) 1 (circuit_timeout cb) w"
| "run_step cb DeleteFailures w = cache_delete (Some (failure_cache_key (rule cb))) w"
| "run_step cb DeleteRequests w = cache_delete (request_cache_key (rule cb)) w"
| "run_step cb Notify w = notify_open_circuit w"

definition open_circuit_steps :: "'e circuit_breaker \<Rightarrow> step list" where
  "open_circuit_steps cb =
     (if request_cache_key (rule cb) \<noteq> None
      then [SetFlag, DeleteFailures, DeleteRequests, Notify]
      else [SetFlag, DeleteFailures, Notify])"

fun run_steps :: "'e circuit_breaker \<Rightarrow> step list \<Rightarrow> world \<Rightarrow> world" where
  "run_steps cb [] w = w"
| "run_steps cb (s # ss) w = run_steps cb ss (run_step cb s w)"

text \<open>
  Every step either leaves a key alone or overwrites it with a value that does not depend
  on what was there: \<open>touches\<close> says which key a step writes, \<open>writes\<close> what it leaves.
\<close>

fun touches :: "'e circuit_breaker \<Rightarrow> step \<Rightarrow> key \<Rightarrow> bool" where
  "touches cb SetFlag k = (k = Some (circuit_cache_key cb))"
| "touches cb DeleteFailures k = (k = Some (failure_cache_key (rule cb)))"
| "touches cb DeleteRequests k = (k = request_cache_key (rule cb))"
| "touches cb Notify k = False"

fun writes :: "'e circuit_breaker \<Rightarrow> step \<Rightarrow> entry option" where
  "writes cb SetFlag = Some (1, Some (circuit_timeout cb))"
| "writes cb s = None"

text \<open>The last write of a list of steps to a key, if any of them touches it.\<close>

definition last_write :: "'e circuit_breaker \<Rightarrow> step list \<Rightarrow> key \<Rightarrow> entry option option" where
  "last_write cb ss k =
     (if filter (\<lambda>s. touches cb s k) ss = [] then None
      else Some (writes cb (last (filter (\<lambda>s. touches cb s k) ss))))"

text \<open>The call of the cache, or of the hook, that a step makes.\<close>

fun step_event :: "'e circuit_breaker \<Rightarrow> step \<Rightarrow> event" where
  "step_event cb SetFlag = CacheSet (Some (circuit_cache_key cb)) 1 (circuit_timeout cb)"
| "step_event cb DeleteFailures = CacheDelete (Some (failure_cache_key (rule cb)))"
| "step_event cb DeleteRequests = CacheDelete (request_cache_key (rule cb))"
| "step_event cb Notify = NotifyOpenCircuit"

text \<open>
  When the rule has a request key, the two deletions are issued together
  (\<^verbatim>\<open>asyncio.gather\<close>, lines 30 to 33): both are under way before either has
  completed, and the cache performs them in one order or the other. The write of the flag
  is awaited before them, and the hook is called after both have completed. A call
  therefore takes one of these schedules:
\<close>

definition open_circuit_schedules :: "'e circuit_breaker \<Rightarrow> step list list" where
  "open_circuit_schedules cb =
     (if request_cache_key (rule cb) \<noteq> None
      then [[SetFlag, DeleteFailures, DeleteRequests, Notify],
            [SetFlag, DeleteRequests, DeleteFailures, Notify]]
      else [[SetFlag, DeleteFailures, Notify]])"

subsection \<open>Sample configurations\<close>

text \<open>
  A policy that counts failures only (threshold 3), a ratio policy (at least 4 requests,
  half of them failed), a policy that counts requests but not failures, and a policy that
  enables request counting without a request key.
\<close>

definition count_rule :: rule where
  "count_rule =
     \<lparr>failure_cache_key = ''failures'', request_cache_key = None,
      should_open_circuit = (\<lambda>f r. 3 \<le> f),
      should_increase_failure_count = True, should_increase_request_count = False\<rparr>"

definition ratio_rule :: rule where
  "ratio_rule =
     \<lparr>failure_cache_key = ''failures'', request_cache_key = Some ''requests'',
      should_open_circuit = (\<lambda>f r. 4 \<le> r \<and> r \<le> 2 * f),
      should_increase_failure_count = True, should_increase_request_count = True\<rparr>"

definition requests_only_rule :: rule where
  "requests_only_rule = ratio_rule\<lparr>should_increase_failure_count := False\<rparr>"

definition keyless_rule :: rule where
  "keyless_rule = count_rule\<lparr>should_increase_request_count := True\<rparr>"


definition breaker :: "rule \<Rightarrow> string circuit_breaker" where
  "breaker r =
     \<lparr>rule = r, circuit_cache_key = ''circuit'', circuit_timeout = 30, failure_timeout = 60,
      failure_exception = ''CircuitOpen'', catch_exceptions = (\<lambda>e. e = ''IOError'')\<rparr>"

definition aliased_breaker :: "string circuit_breaker" where
  "aliased_breaker = (breaker count_rule)\<lparr>circuit_cache_key := ''failures''\<rparr>"

definition w_closed :: world where
  "w_closed = \<lparr>cache = Map.empty, trace = []\<rparr>"

definition w_open :: world where
  "w_open = \<lparr>cache = [Some ''circuit'' \<mapsto> (1, Some 30)], trace = []\<rparr>"

definition w_counting :: world where
  "w_counting =
     \<lparr>cache = [Some ''failures'' \<mapsto> (2, Some 60), Some ''requests'' \<mapsto> (3, Some 60)],
      trace = []\<rparr>"

text \<open>
  The cache fifty seconds after the first request of a window was counted under the ratio
  policy: the request counter at \<open>1\<close>, the failure counter as request accounting created
  it, at \<open>0\<close>, each with ten of its sixty seconds left.
\<close>

definition seeded :: world where
  "seeded = elapse 50 (increase_request_count (breaker ratio_rule) w_closed)"

definition failing :: "store \<Rightarrow> (string + int) \<times> store" where
  "failing c = (Inl ''IOError'', c)"

definition succeeding :: "int \<Rightarrow> store \<Rightarrow> (string + int) \<times> store" where
  "succeeding x c = (Inr (x + 1), c)"

section \<open>Basic facts\<close>

lemma is_circuit_open_eq:
  "is_circuit_open cb w =
     (flag_truthy cb (cache w), emit (CacheGet (Some (circuit_cache_key cb))) w)"
  by (simp add: is_circuit_open_def cache_get_def flag_truthy_def counter_value_def
      split: option.splits prod.splits)

lemma cache_emit [simp]: "cache (emit ev w) = cache w"
  by (simp add: emit_def)

lemma trace_emit [simp]: "trace (emit ev w) = trace w @ [ev]"
  by (simp add: emit_def)

lemma new_events_append: "trace w' = trace w @ evs \<Longrightarrow> new_events w w' = evs"
  by (simp add: new_events_def)

lemma aenter_eq:
  "aenter cb w =
     (if flag_truthy cb (cache w) then Inl (failure_exception cb) else Inr cb,
      emit (CacheGet (Some (circuit_cache_key cb))) w)"
  by (simp add: aenter_def is_circuit_open_eq)

lemma get_total_failures_eq:
  "get_total_failures cb w =
     (counter_value (cache w) (Some (failure_cache_key (rule cb))),
      emit (CacheGet (Some (failure_cache_key (rule cb)))) w)"
  by (simp add: get_total_failures_def cache_get_def counter_value_def
      split: option.splits prod.splits)

lemma get_total_requests_eq:
  "get_total_requests cb w =
     (if request_cache_key (rule cb) = None \<or> request_cache_key (rule cb) = Some []
      then (0, w)
      else (counter_value (cache w) (request_cache_key (rule cb)),
            emit (CacheGet (request_cache_key (rule cb))) w))"
  by (simp add: get_total_requests_def cache_get_def counter_value_def
      split: option.splits prod.splits)

lemma incr_eq:
  "incr k t w =
     (counter_value (cache w) k + 1,
      w\<lparr>cache := (cache w)(k \<mapsto> (counter_value (cache w) k + 1,
                 if counter_value (cache w) k = 0 then Some t else ttl_of (cache w) k)),
        trace := trace w @ CacheIncr k #
                 (if counter_value (cache w) k = 0 then [CacheExpire k t] else [])\<rparr>)"
  by (simp add: incr_def cache_incr_def cache_expire_def counter_value_def ttl_of_def emit_def
      split: option.splits prod.splits)

lemma open_circuit_eq:
  "open_circuit cb w =
     w\<lparr>cache := (if request_cache_key (rule cb) \<noteq> None
                 then ((cache w)(Some (circuit_cache_key cb) \<mapsto> (1, Some (circuit_timeout cb)),
                      Some (failure_cache_key (rule cb)) := None,
                      request_cache_key (rule cb) := None))
                 else ((cache w)(Some (circuit_cache_key cb) \<mapsto> (1, Some (circuit_timeout cb)),
                      Some (failure_cache_key (rule cb)) := None))),
       trace := trace w @ CacheSet (Some (circuit_cache_key cb)) 1 (circuit_timeout cb)
         # CacheDelete (Some (failure_cache_key (rule cb)))
         # (if request_cache_key (rule cb) \<noteq> None
            then [CacheDelete (request_cache_key (rule cb))] else [])
         @ [NotifyOpenCircuit]\<rparr>"
  by (simp add: open_circuit_def cache_set_def cache_delete_def notify_open_circuit_def Let_def
      emit_def)

lemma increase_failure_count_eq:
  "increase_failure_count cb w =
     (if flag_truthy cb (cache w) \<or> \<not> should_increase_failure_count (rule cb)
      then emit (CacheGet (Some (circuit_cache_key cb))) w
      else (let w2 = snd (incr (Some (failure_cache_key (rule cb))) (failure_timeout cb)
                             (emit (CacheGet (Some (circuit_cache_key cb))) w))
            in emit (LogIncreaseFailures
                       (counter_value (cache w) (Some (failure_cache_key (rule cb))) + 1)
                       (fst (get_total_requests cb w2)))
                 (snd (get_total_requests cb w2))))"
  by (simp add: increase_failure_count_def is_circuit_open_eq incr_eq
      log_increase_failures_def Let_def split: prod.splits)

lemma increase_request_count_eq:
  "increase_request_count cb w =
     (if flag_truthy cb (cache w) \<or> \<not> should_increase_request_count (rule cb)
      then emit (CacheGet (Some (circuit_cache_key cb))) w
      else (let w2 = snd (incr (request_cache_key (rule cb)) (failure_timeout cb)
                             (emit (CacheGet (Some (circuit_cache_key cb))) w))
            in if should_increase_failure_count (rule cb)
               then cache_add (Some (failure_cache_key (rule cb))) 0 (failure_timeout cb) w2
               else w2))"
  by (simp add: increase_request_count_def is_circuit_open_eq Let_def split: prod.splits)

lemma cache_add_eq:
  "cache_add k v t w =
     w\<lparr>cache := (if cache w k = None then (cache w)(k \<mapsto> (v, Some t)) else cache w),
       trace := trace w @ [CacheAdd k v t]\<rparr>"
  by (simp add: cache_add_def emit_def split: option.splits)

lemma increase_request_count_trace:
  "\<not> flag_truthy cb (cache w) \<Longrightarrow> should_increase_request_count (rule cb) \<Longrightarrow>
     \<exists>evs. trace (increase_request_count cb w) =
       trace w @ CacheGet (Some (circuit_cache_key cb))
         # CacheIncr (request_cache_key (rule cb)) # evs"
  by (simp add: increase_request_count_eq incr_eq cache_add_eq Let_def)


lemma increase_failure_count_grows:
  "\<exists>evs. trace (increase_failure_count cb w) = trace w @ evs"
  by (simp add: increase_failure_count_eq incr_eq get_total_requests_eq Let_def)

lemma aexit_grows:
  "\<exists>evs. trace (snd (aexit cb exc w)) = trace (increase_request_count cb w) @ evs"
proof -
  obtain evs where evs:
    "trace (increase_failure_count cb (increase_request_count cb w))
       = trace (increase_request_count cb w) @ evs"
    using increase_failure_count_grows by blast
  show ?thesis
    by (simp add: aexit_def Let_def get_total_failures_eq get_total_requests_eq evs
        open_circuit_eq notify_max_failures_exceeded_def split: prod.splits)
qed


lemma accounting_events:
  "\<exists>evs. trace (increase_failure_count cb (increase_request_count cb w)) = trace w @ evs
      \<and> NotifyOpenCircuit \<notin> set evs \<and> NotifyMaxFailuresExceeded \<notin> set evs
      \<and> CacheSet k v t \<notin> set evs"
  by (simp add: increase_failure_count_eq increase_request_count_eq incr_eq cache_add_eq
      get_total_requests_eq Let_def)

lemma aexit_catchable_eq:
  assumes "catch_exceptions cb e"
    and "w2 = increase_failure_count cb (increase_request_count cb w)"
    and "trips = should_open_circuit (rule cb) (fst (get_total_failures cb w2))
                   (fst (get_total_requests cb w2))"
  shows "aexit cb (Some e) w =
     (if trips
      then (Inl (failure_exception cb),
            notify_max_failures_exceeded
              (open_circuit cb (snd (get_total_requests cb (snd (get_total_failures cb w2))))))
      else (Inr (), snd (get_total_requests cb (snd (get_total_failures cb w2)))))"
  using assms
  by (simp add: aexit_def Let_def is_catchable_exception_def get_total_failures_eq
      get_total_requests_eq split: prod.splits)

lemma guarded_closed:
  "\<not> flag_truthy cb (cache w) \<Longrightarrow> body (cache w) = (r, c) \<Longrightarrow>
   wb = (emit ProtectedCall (emit (CacheGet (Some (circuit_cache_key cb))) w))\<lparr>cache := c\<rparr> \<Longrightarrow>
     guarded cb body w =
       (case fst (aexit cb (case r of Inl e \<Rightarrow> Some e | Inr v \<Rightarrow> None) wb) of
          Inl e' \<Rightarrow> Inl e' | Inr u \<Rightarrow> r,
        snd (aexit cb (case r of Inl e \<Rightarrow> Some e | Inr v \<Rightarrow> None) wb))"
  by (simp add: guarded_def aenter_eq split: prod.splits sum.splits)


lemma run_step_cache:
  "cache (run_step cb s w) k = (if touches cb s k then writes cb s else cache w k)"
  by (cases s) (simp_all add: cache_set_def cache_delete_def notify_open_circuit_def)

lemma run_steps_snoc: "run_steps cb (zs @ [s]) w = run_step cb s (run_steps cb zs w)"
  by (induction zs arbitrary: w) simp_all

lemma run_steps_cache:
  "cache (run_steps cb zs w) k =
     (if filter (\<lambda>s. touches cb s k) zs = [] then cache w k
      else writes cb (last (filter (\<lambda>s. touches cb s k) zs)))"
proof (induction zs rule: rev_induct)
  case Nil
  show ?case by simp
next
  case (snoc s zs)
  show ?case
    by (simp add: run_steps_snoc run_step_cache snoc.IH)
qed

lemma last_of_shuffle:
  "zs \<in> shuffles xs ys \<Longrightarrow> zs \<noteq> [] \<Longrightarrow>
     (xs \<noteq> [] \<and> last zs = last xs) \<or> (ys \<noteq> [] \<and> last zs = last ys)"
proof (induction xs ys arbitrary: zs rule: shuffles.induct)
  case (1 ys)
  then show ?case by simp
next
  case (2 xs)
  then show ?case by simp
next
  case (3 x xs y ys)
  from "3.prems"(1) consider zs' where "zs = x # zs'" "zs' \<in> shuffles xs (y # ys)"
    | zs' where "zs = y # zs'" "zs' \<in> shuffles (x # xs) ys"
    by auto
  then show ?case
  proof cases
    case 1
    then have "zs' \<noteq> []" by auto
    with 1 "3.IH"(1) [of zs'] show ?thesis by auto
  next
    case 2
    then have "zs' \<noteq> []" by auto
    with 2 "3.IH"(2) [of zs'] show ?thesis by auto
  qed
qed

lemma open_circuit_as_steps: "run_steps cb (open_circuit_steps cb) w = open_circuit cb w"
  by (simp add: open_circuit_steps_def open_circuit_def Let_def)

lemma run_step_trace: "trace (run_step cb s w) = trace w @ [step_event cb s]"
  by (cases s) (simp_all add: cache_set_def cache_delete_def notify_open_circuit_def)

lemma run_steps_trace: "trace (run_steps cb ss w) = trace w @ map (step_event cb) ss"
  by (induction ss arbitrary: w) (simp_all add: run_step_trace)

lemma run_steps_last_write:
  "cache (run_steps cb ss w) k = (case last_write cb ss k of None \<Rightarrow> cache w k | Some v \<Rightarrow> v)"
  by (simp add: run_steps_cache last_write_def)

lemma last_write_shuffle:
  assumes "zs \<in> shuffles xs ys" and "last_write cb xs k = last_write cb ys k"
  shows "last_write cb zs k = last_write cb xs k"
proof -
  let ?P = "\<lambda>s. touches cb s k"
  have mixed: "filter ?P zs \<in> shuffles (filter ?P xs) (filter ?P ys)"
    using assms(1) filter_shuffles [of ?P xs ys] by blast
  show ?thesis
  proof (cases "filter ?P xs = []")
    case True
    with assms(2) have "filter ?P ys = []"
      by (simp add: last_write_def split: if_splits)
    with True mixed have "filter ?P zs = []" by simp
    with True show ?thesis by (simp add: last_write_def)
  next
    case False
    with assms(2) have other: "filter ?P ys \<noteq> []"
      and same: "writes cb (last (filter ?P xs)) = writes cb (last (filter ?P ys))"
      by (simp_all add: last_write_def split: if_splits)
    from False mixed have nonempty: "filter ?P zs \<noteq> []" by auto
    from last_of_shuffle [OF mixed nonempty] same
    have "writes cb (last (filter ?P zs)) = writes cb (last (filter ?P xs))" by auto
    with False nonempty show ?thesis by (simp add: last_write_def)
  qed
qed

lemma schedules_last_write:
  "xs \<in> set (open_circuit_schedules cb) \<Longrightarrow>
   last_write cb xs k = last_write cb (open_circuit_steps cb) k"
  by (auto simp add: open_circuit_schedules_def open_circuit_steps_def last_write_def
      split: if_splits)

lemma racing_schedules:
  assumes "xs \<in> set (open_circuit_schedules cb)" and "ys \<in> set (open_circuit_schedules cb)"
    and "zs \<in> shuffles xs ys"
  shows "cache (run_steps cb zs w) = cache (open_circuit cb w)"
proof
  fix k
  have "last_write cb xs k = last_write cb ys k"
    using assms(1,2) by (simp add: schedules_last_write)
  from last_write_shuffle [OF assms(3) this]
  have "last_write cb zs k = last_write cb (open_circuit_steps cb) k"
    using assms(1) by (simp add: schedules_last_write)
  then have "cache (run_steps cb zs w) k = cache (run_steps cb (open_circuit_steps cb) w) k"
    by (simp add: run_steps_last_write)
  then show "cache (run_steps cb zs w) k = cache (open_circuit cb w) k"
    by (simp add: open_circuit_as_steps)
qed

lemma schedule_alone:
  assumes "ss \<in> set (open_circuit_schedules cb)"
  shows "cache (run_steps cb ss w) = cache (open_circuit cb w)"
proof
  fix k
  have "cache (run_steps cb ss w) k = cache (run_steps cb (open_circuit_steps cb) w) k"
    using assms by (simp add: run_steps_last_write schedules_last_write)
  then show "cache (run_steps cb ss w) k = cache (open_circuit cb w) k"
    by (simp add: open_circuit_as_steps)
qed

lemma schedule_shape:
  "ss \<in> set (open_circuit_schedules cb) \<Longrightarrow>
     \<exists>ds. ss = SetFlag # ds @ [Notify]
       \<and> set ds = (if request_cache_key (rule cb) \<noteq> None
                   then {DeleteFailures, DeleteRequests} else {DeleteFailures})"
  by (auto simp add: open_circuit_schedules_def split: if_splits)

lemma open_circuit_end_state:
  "cache (open_circuit cb w) (Some (failure_cache_key (rule cb))) = None
   \<and> (request_cache_key (rule cb) \<noteq> None \<longrightarrow>
        cache (open_circuit cb w) (request_cache_key (rule cb)) = None)
   \<and> fst (get_total_failures cb (open_circuit cb w)) = 0
   \<and> fst (get_total_requests cb (open_circuit cb w)) = 0
   \<and> (circuit_cache_key cb \<noteq> failure_cache_key (rule cb)
        \<and> request_cache_key (rule cb) \<noteq> Some (circuit_cache_key cb) \<longrightarrow>
        cache (open_circuit cb w) (Some (circuit_cache_key cb)) = Some (1, Some (circuit_timeout cb))
        \<and> fst (is_circuit_open cb (open_circuit cb w)))"
  by (simp add: open_circuit_eq get_total_failures_eq get_total_requests_eq
      is_circuit_open_eq flag_truthy_def counter_value_def)

lemma seeded_cache:
  "cache seeded = [Some ''requests'' \<mapsto> (1, Some 10), Some ''failures'' \<mapsto> (0, Some 10)]"
  by (auto simp add: seeded_def elapse_def increase_request_count_eq incr_eq cache_add_eq
      breaker_def ratio_rule_def w_closed_def flag_truthy_def counter_value_def Let_def
      fun_eq_iff)

section \<open>Entry into the guarded scope\<close>

text \<open>
  Claim C1. Whenever the guarded scope is entered (through the context manager or through
  the decorated callable) while the open flag is present and truthy in the cache, the
  engine raises the configured \<open>failure_exception\<close>, and the protected operation is not
  invoked: the only thing that happens is the read of the flag.
\<close>

theorem entry_when_open_raises:
  "flag_truthy cb (cache w) \<Longrightarrow>
     aenter cb w = (Inl (failure_exception cb), emit (CacheGet (Some (circuit_cache_key cb))) w)
   \<and> guarded cb body w
       = (Inl (failure_exception cb), emit (CacheGet (Some (circuit_cache_key cb))) w)
   \<and> inner cb func args w
       = (Inl (failure_exception cb), emit (CacheGet (Some (circuit_cache_key cb))) w)
   \<and> ProtectedCall \<notin> set (new_events w (snd (inner cb func args w)))"
  by (simp add: inner_def guarded_def aenter_eq new_events_append)

theorem entry_when_open_raises_witness:
  "flag_truthy (breaker count_rule) (cache w_open)
   \<and> inner (breaker count_rule) succeeding 5 w_open
       = (Inl ''CircuitOpen'', emit (CacheGet (Some ''circuit'')) w_open)
   \<and> guarded (breaker count_rule) failing w_open
       = (Inl ''CircuitOpen'', emit (CacheGet (Some ''circuit'')) w_open)"
proof -
  have open_flag: "flag_truthy (breaker count_rule) (cache w_open)"
    by (simp add: flag_truthy_def counter_value_def breaker_def w_open_def)
  show ?thesis
    using open_flag
      entry_when_open_raises [OF open_flag, of failing succeeding 5]
    by (simp add: breaker_def)
qed

section \<open>Incrementing a counter\<close>

text \<open>
  What \<^verbatim>\<open>_incr\<close> does on every key and in every state: it increments the integer stored
  at the key (an absent key counts as \<open>0\<close>), leaves every other key alone and returns the
  incremented value; it sets the TTL of the key to the timeout passed exactly when the
  value returned is \<open>1\<close>.
\<close>

lemma incr_effect:
  "fst (incr k t w) = counter_value (cache w) k + 1
   \<and> counter_value (cache (snd (incr k t w))) k = counter_value (cache w) k + 1
   \<and> (\<forall>k'. k' \<noteq> k \<longrightarrow> cache (snd (incr k t w)) k' = cache w k')
   \<and> (CacheExpire k t \<in> set (new_events w (snd (incr k t w))) \<longleftrightarrow> fst (incr k t w) = 1)
   \<and> CacheIncr k \<in> set (new_events w (snd (incr k t w)))
   \<and> ttl_of (cache (snd (incr k t w))) k
       = (if fst (incr k t w) = 1 then Some t else ttl_of (cache w) k)"
  by (simp add: incr_eq new_events_append [of _ w] counter_value_def ttl_of_def)

text \<open>
  The value \<open>1\<close> is returned by the increment that creates a key and also by the increment
  of a key stored at \<open>0\<close>. The failure counter that request accounting created at \<open>0\<close>
  therefore has its TTL set again by the first failure counted after it.
\<close>

lemma first_failure_sets_ttl_again:
  "\<not> flag_truthy cb (cache w) \<Longrightarrow> should_increase_failure_count (rule cb) \<Longrightarrow>
   cache w (Some (failure_cache_key (rule cb))) = Some (0, t0) \<Longrightarrow>
     CacheExpire (Some (failure_cache_key (rule cb))) (failure_timeout cb)
       \<in> set (new_events w (increase_failure_count cb w))"
  by (simp add: increase_failure_count_eq incr_eq get_total_requests_eq Let_def new_events_def
      counter_value_def)

text \<open>
  Claim C9. Incrementing a counter key increments the integer at that key and returns the
  incremented value; the TTL of the counter is set to \<open>failure_timeout\<close> if and only if the
  value returned is exactly \<open>1\<close>, which is to say by the increment that created the key, so
  that the first increment of a window decides when the window expires. The code departs
  from this on a key that exists with the value \<open>0\<close>. In the state \<open>seeded\<close> the failure
  counter exists, created by request accounting fifty seconds earlier, and both counters
  have ten seconds left; the increment of the failure key returns \<open>1\<close>, calls
  \<^verbatim>\<open>expire\<close>, and leaves the failure counter with sixty seconds while the request counter
  keeps its ten.
\<close>

theorem incr_resets_ttl_of_seeded_key:
  "cache seeded (Some ''failures'') = Some (0, Some 10)
   \<and> cache seeded (Some ''requests'') = Some (1, Some 10)
   \<and> fst (incr (Some ''failures'') 60 seeded) = 1
   \<and> CacheExpire (Some ''failures'') 60
        \<in> set (new_events seeded (snd (incr (Some ''failures'') 60 seeded)))
   \<and> cache (snd (incr (Some ''failures'') 60 seeded)) (Some ''failures'') = Some (1, Some 60)
   \<and> cache (snd (incr (Some ''failures'') 60 seeded)) (Some ''requests'') = Some (1, Some 10)"
  by (simp add: incr_eq seeded_cache counter_value_def new_events_def)

section \<open>Failure accounting\<close>

text \<open>
  Claim C8. Failure accounting is skipped entirely when the circuit is open at that moment
  or when the rule's \<open>should_increase_failure_count\<close> is false: the flag is read and
  nothing else happens (no increment, no \<open>log_increase_failures\<close>, the cache is as it
  was). Otherwise the failure counter is incremented, no other key changes, and
  \<open>log_increase_failures\<close> is the last call, with the failure and request totals as they
  then stand in the cache.
\<close>

theorem failure_accounting:
  "(flag_truthy cb (cache w) \<or> \<not> should_increase_failure_count (rule cb) \<longrightarrow>
      increase_failure_count cb w = emit (CacheGet (Some (circuit_cache_key cb))) w
      \<and> cache (increase_failure_count cb w) = cache w)
   \<and> (\<not> flag_truthy cb (cache w) \<and> should_increase_failure_count (rule cb) \<longrightarrow>
        counter_value (cache (increase_failure_count cb w)) (Some (failure_cache_key (rule cb)))
          = counter_value (cache w) (Some (failure_cache_key (rule cb))) + 1
        \<and> (\<forall>k. k \<noteq> Some (failure_cache_key (rule cb)) \<longrightarrow>
              cache (increase_failure_count cb w) k = cache w k)
        \<and> CacheIncr (Some (failure_cache_key (rule cb)))
              \<in> set (new_events w (increase_failure_count cb w))
        \<and> last (trace (increase_failure_count cb w))
            = LogIncreaseFailures
                (fst (get_total_failures cb (increase_failure_count cb w)))
                (fst (get_total_requests cb (increase_failure_count cb w))))"
  by (simp add: increase_failure_count_eq incr_eq get_total_requests_eq get_total_failures_eq
      Let_def new_events_def counter_value_def)

theorem failure_accounting_witness:
  "increase_failure_count (breaker ratio_rule) w_open = emit (CacheGet (Some ''circuit'')) w_open
   \<and> increase_failure_count (breaker requests_only_rule) w_counting
       = emit (CacheGet (Some ''circuit'')) w_counting
   \<and> counter_value (cache (increase_failure_count (breaker ratio_rule) w_counting))
        (Some ''failures'') = 3
   \<and> last (trace (increase_failure_count (breaker ratio_rule) w_counting))
       = LogIncreaseFailures 3 3"
  using failure_accounting [of "breaker ratio_rule" w_open]
    failure_accounting [of "breaker requests_only_rule" w_counting]
    failure_accounting [of "breaker ratio_rule" w_counting]
  by (simp add: breaker_def ratio_rule_def requests_only_rule_def w_open_def w_counting_def
      flag_truthy_def counter_value_def get_total_failures_eq get_total_requests_eq
      increase_failure_count_eq incr_eq Let_def)

section \<open>Request accounting\<close>

text \<open>
  Claim C10. The increment of request accounting is issued exactly when the circuit is not
  open and the rule's \<open>should_increase_request_count\<close> is true, whatever the request key
  is: under a rule that enables request counting and has no request key, the engine calls
  the cache's increment with the key \<open>None\<close>. The read path \<open>get_total_requests\<close>, in
  contrast, returns \<open>0\<close> without touching the cache when the key is \<open>None\<close>.
\<close>

theorem request_accounting_gate:
  "(CacheIncr (request_cache_key (rule cb)) \<in> set (new_events w (increase_request_count cb w))
      \<longleftrightarrow> \<not> flag_truthy cb (cache w) \<and> should_increase_request_count (rule cb))
   \<and> (request_cache_key (rule cb) = None \<longrightarrow> get_total_requests cb w = (0, w))
   \<and> (request_cache_key (rule cb) = None \<and> should_increase_request_count (rule cb)
        \<and> \<not> flag_truthy cb (cache w) \<longrightarrow>
        CacheIncr None \<in> set (new_events w (increase_request_count cb w))
        \<and> counter_value (cache (increase_request_count cb w)) None
            = counter_value (cache w) None + 1)"
  by (simp add: increase_request_count_eq incr_eq get_total_requests_eq cache_add_eq
      Let_def new_events_def counter_value_def)

theorem request_accounting_gate_witness:
  "CacheIncr None \<in> set (new_events w_closed (increase_request_count (breaker keyless_rule) w_closed))
   \<and> counter_value (cache (increase_request_count (breaker keyless_rule) w_closed)) None = 1
   \<and> get_total_requests (breaker keyless_rule) w_closed = (0, w_closed)"
  using request_accounting_gate [of "breaker keyless_rule" w_closed]
  by (simp add: breaker_def keyless_rule_def count_rule_def w_closed_def
      flag_truthy_def counter_value_def)

text \<open>
  Claim C6, as the code has it. On every exit of the guarded scope, after success or
  failure, the request counter is increased whenever the rule enables request counting
  and the circuit is not open at that moment: the exit starts with the read of the flag
  and the increment of the request key, the counter stands one higher after request
  accounting, and when the exception is not a catchable one nothing else happens.
\<close>

theorem exit_counts_request:
  "should_increase_request_count (rule cb) \<Longrightarrow> \<not> flag_truthy cb (cache w) \<Longrightarrow>
     (\<exists>evs. new_events w (snd (aexit cb exc w))
              = CacheGet (Some (circuit_cache_key cb))
                  # CacheIncr (request_cache_key (rule cb)) # evs)
     \<and> counter_value (cache (increase_request_count cb w)) (request_cache_key (rule cb))
         = counter_value (cache w) (request_cache_key (rule cb)) + 1
     \<and> (\<not> is_catchable_exception cb exc \<longrightarrow>
          snd (aexit cb exc w) = increase_request_count cb w)"
proof -
  assume sirc: "should_increase_request_count (rule cb)"
    and closed: "\<not> flag_truthy cb (cache w)"
  obtain evs1 where evs1:
    "trace (increase_request_count cb w) =
       trace w @ CacheGet (Some (circuit_cache_key cb))
         # CacheIncr (request_cache_key (rule cb)) # evs1"
    using increase_request_count_trace [OF closed sirc] by blast
  obtain evs2 where evs2:
    "trace (snd (aexit cb exc w)) = trace (increase_request_count cb w) @ evs2"
    using aexit_grows by blast
  have events: "new_events w (snd (aexit cb exc w))
      = CacheGet (Some (circuit_cache_key cb))
          # CacheIncr (request_cache_key (rule cb)) # (evs1 @ evs2)"
    by (simp add: new_events_def evs1 evs2)
  have counted:
    "counter_value (cache (increase_request_count cb w)) (request_cache_key (rule cb))
       = counter_value (cache w) (request_cache_key (rule cb)) + 1"
    using sirc closed
    by (simp add: increase_request_count_eq incr_eq cache_add_eq Let_def counter_value_def)
  have plain: "\<not> is_catchable_exception cb exc \<longrightarrow>
      snd (aexit cb exc w) = increase_request_count cb w"
    by (simp add: aexit_def Let_def)
  from events counted plain show ?thesis by blast
qed

theorem exit_counts_request_witness:
  "should_increase_request_count (rule (breaker ratio_rule))
   \<and> \<not> flag_truthy (breaker ratio_rule) (cache w_counting)
   \<and> counter_value (cache (snd (aexit (breaker ratio_rule) None w_counting))) (Some ''requests'')
       = 4"
  using exit_counts_request [of "breaker ratio_rule" w_counting None]
  by (simp add: breaker_def ratio_rule_def w_counting_def flag_truthy_def counter_value_def
      is_catchable_exception_def)

text \<open>
  The claim C6 as worded, without the condition on the flag, fails: when the exit finds the
  circuit open (a racing caller opened it while the protected operation ran), the request
  counter is not touched although the rule enables request counting.
\<close>

theorem exit_while_open_counterexample:
  "should_increase_request_count (rule (breaker ratio_rule))
   \<and> CacheIncr (request_cache_key (rule (breaker ratio_rule)))
        \<notin> set (new_events w_open (snd (aexit (breaker ratio_rule) None w_open)))
   \<and> cache (snd (aexit (breaker ratio_rule) None w_open)) = cache w_open
   \<and> counter_value (cache (snd (aexit (breaker ratio_rule) None w_open)))
        (request_cache_key (rule (breaker ratio_rule))) = 0"
  by (simp add: aexit_def Let_def increase_request_count_eq is_catchable_exception_def
      breaker_def ratio_rule_def w_open_def flag_truthy_def counter_value_def new_events_def)

text \<open>
  Claim C7, as the code has it. Whenever request accounting runs and the rule's
  \<open>should_increase_failure_count\<close> is true, the engine, after incrementing the request
  counter, calls the cache's set-if-absent on the failure key with value \<open>0\<close> and TTL
  \<open>failure_timeout\<close>, as its last step. If the failure counter is absent at that point it
  is created as \<open>(0, failure_timeout)\<close>; if it exists the cache is left as the increment
  left it, value and TTL included. A counter that this step creates carries the TTL
  \<open>failure_timeout\<close>. (\<open>w1\<close> is the world right after the increment.)
\<close>

theorem request_accounting_seeds_failure_counter:
  "\<not> flag_truthy cb (cache w) \<Longrightarrow> should_increase_request_count (rule cb) \<Longrightarrow>
   should_increase_failure_count (rule cb) \<Longrightarrow>
   w1 = snd (incr (request_cache_key (rule cb)) (failure_timeout cb)
              (emit (CacheGet (Some (circuit_cache_key cb))) w)) \<Longrightarrow>
     new_events w (increase_request_count cb w)
       = new_events w w1 @ [CacheAdd (Some (failure_cache_key (rule cb))) 0 (failure_timeout cb)]
     \<and> CacheIncr (request_cache_key (rule cb)) \<in> set (new_events w w1)
     \<and> (cache w1 (Some (failure_cache_key (rule cb))) = None \<longrightarrow>
          cache (increase_request_count cb w)
            = (cache w1)(Some (failure_cache_key (rule cb)) \<mapsto> (0, Some (failure_timeout cb))))
     \<and> (cache w1 (Some (failure_cache_key (rule cb))) \<noteq> None \<longrightarrow>
          cache (increase_request_count cb w) = cache w1)
     \<and> (request_cache_key (rule cb) \<noteq> Some (failure_cache_key (rule cb)) \<longrightarrow>
          cache w1 (Some (failure_cache_key (rule cb)))
            = cache w (Some (failure_cache_key (rule cb))))
     \<and> (cache w1 (Some (failure_cache_key (rule cb))) = None
          \<and> counter_value (cache w) (request_cache_key (rule cb)) = 0 \<longrightarrow>
          ttl_of (cache (increase_request_count cb w)) (request_cache_key (rule cb))
            = Some (failure_timeout cb)
          \<and> ttl_of (cache (increase_request_count cb w)) (Some (failure_cache_key (rule cb)))
            = Some (failure_timeout cb))"
  by (auto simp add: increase_request_count_eq incr_eq cache_add_eq Let_def new_events_def
      ttl_of_def)

theorem request_accounting_seeds_failure_counter_witness:
  "cache (increase_request_count (breaker ratio_rule) w_closed) (Some ''failures'')
     = Some (0, Some 60)
   \<and> cache (increase_request_count (breaker ratio_rule) w_closed) (Some ''requests'')
     = Some (1, Some 60)
   \<and> cache (increase_request_count (breaker ratio_rule) w_counting) (Some ''failures'')
     = Some (2, Some 60)"
  using request_accounting_seeds_failure_counter [of "breaker ratio_rule" w_closed, OF _ _ _ refl]
    request_accounting_seeds_failure_counter [of "breaker ratio_rule" w_counting, OF _ _ _ refl]
  by (simp add: breaker_def ratio_rule_def w_closed_def w_counting_def flag_truthy_def
      counter_value_def incr_eq)

text \<open>
  The claim C7 as worded fails in two ways. Under a rule that counts requests but not
  failures, request accounting increments the request counter and does not create the
  failure counter. And two counters that both exist do not always expire together: in the
  state \<open>seeded\<close> both have ten seconds left; failure accounting then leaves the failure
  counter with sixty seconds and the request counter with ten, and ten seconds later the
  request counter is gone while the failure counter is still there.
\<close>

theorem request_accounting_counterexample:
  "should_increase_request_count (rule (breaker requests_only_rule))
   \<and> CacheIncr (Some ''requests'')
        \<in> set (new_events w_closed (increase_request_count (breaker requests_only_rule) w_closed))
   \<and> CacheAdd (Some ''failures'') 0 60
        \<notin> set (new_events w_closed (increase_request_count (breaker requests_only_rule) w_closed))
   \<and> cache (increase_request_count (breaker requests_only_rule) w_closed) (Some ''failures'')
       = None
   \<and> cache (increase_failure_count (breaker ratio_rule) seeded) (Some ''failures'')
       = Some (1, Some 60)
   \<and> cache (increase_failure_count (breaker ratio_rule) seeded) (Some ''requests'')
       = Some (1, Some 10)
   \<and> cache (elapse 10 (increase_failure_count (breaker ratio_rule) seeded)) (Some ''requests'')
       = None
   \<and> cache (elapse 10 (increase_failure_count (breaker ratio_rule) seeded)) (Some ''failures'')
       = Some (1, Some 50)"
proof -
  have unseeded:
    "should_increase_request_count (rule (breaker requests_only_rule))
     \<and> CacheIncr (Some ''requests'')
        \<in> set (new_events w_closed (increase_request_count (breaker requests_only_rule) w_closed))
     \<and> CacheAdd (Some ''failures'') 0 60
        \<notin> set (new_events w_closed (increase_request_count (breaker requests_only_rule) w_closed))
     \<and> cache (increase_request_count (breaker requests_only_rule) w_closed) (Some ''failures'')
       = None"
    by (simp add: increase_request_count_eq incr_eq Let_def breaker_def requests_only_rule_def
        ratio_rule_def w_closed_def flag_truthy_def counter_value_def new_events_def)
  have counted: "cache (increase_failure_count (breaker ratio_rule) seeded)
      = [Some ''requests'' \<mapsto> (1, Some 10), Some ''failures'' \<mapsto> (1, Some 60)]"
    by (auto simp add: increase_failure_count_eq incr_eq get_total_requests_eq seeded_cache
        breaker_def ratio_rule_def flag_truthy_def counter_value_def Let_def fun_eq_iff)
  from unseeded counted show ?thesis
    by (simp add: elapse_def)
qed

section \<open>Exit from the guarded scope\<close>

text \<open>
  Claim C2. At every exit of the guarded scope where the protected operation raised a
  catchable exception \<open>e\<close>: let \<open>trips\<close> be the rule's \<open>should_open_circuit\<close> applied to
  the failure and request totals read after the accounting of this call. If \<open>trips\<close>, the
  exit raises \<open>failure_exception\<close>, the circuit is opened (the flag is set, the counters are
  deleted, both notification hooks fire) and the scope raises \<open>failure_exception\<close> in place
  of \<open>e\<close>; if not, the exit raises nothing, none of the steps of opening takes place, and the
  scope raises \<open>e\<close> itself.
\<close>

theorem exit_after_catchable_failure:
  assumes catchable: "catch_exceptions cb e"
    and w2: "w2 = increase_failure_count cb (increase_request_count cb w)"
    and trips: "trips = should_open_circuit (rule cb) (fst (get_total_failures cb w2))
                          (fst (get_total_requests cb w2))"
  shows "fst (aexit cb (Some e) w) = (if trips then Inl (failure_exception cb) else Inr ())
    \<and> (NotifyOpenCircuit \<in> set (new_events w (snd (aexit cb (Some e) w))) \<longleftrightarrow> trips)
    \<and> (CacheSet (Some (circuit_cache_key cb)) 1 (circuit_timeout cb)
          \<in> set (new_events w (snd (aexit cb (Some e) w))) \<longleftrightarrow> trips)
    \<and> (NotifyMaxFailuresExceeded \<in> set (new_events w (snd (aexit cb (Some e) w))) \<longleftrightarrow> trips)
    \<and> cache (snd (aexit cb (Some e) w)) = (if trips then cache (open_circuit cb w2) else cache w2)
    \<and> (\<not> flag_truthy cb (cache w0) \<and> fst (body (cache w0)) = Inl e
         \<and> w = (emit ProtectedCall (emit (CacheGet (Some (circuit_cache_key cb))) w0))
                  \<lparr>cache := snd (body (cache w0))\<rparr>
         \<longrightarrow> fst (guarded cb body w0) = Inl (if trips then failure_exception cb else e))"
proof -
  note exit_eq = aexit_catchable_eq [OF catchable w2 trips]
  obtain evs where evs: "trace w2 = trace w @ evs"
    and quiet: "NotifyOpenCircuit \<notin> set evs" "NotifyMaxFailuresExceeded \<notin> set evs"
      "CacheSet (Some (circuit_cache_key cb)) 1 (circuit_timeout cb) \<notin> set evs"
    unfolding w2 using accounting_events by blast
  have result: "fst (aexit cb (Some e) w) = (if trips then Inl (failure_exception cb) else Inr ())"
    by (simp add: exit_eq)
  have events:
    "new_events w (snd (aexit cb (Some e) w)) =
       evs @ CacheGet (Some (failure_cache_key (rule cb)))
         # (if request_cache_key (rule cb) = None \<or> request_cache_key (rule cb) = Some []
            then [] else [CacheGet (request_cache_key (rule cb))])
         @ (if trips
            then CacheSet (Some (circuit_cache_key cb)) 1 (circuit_timeout cb)
                   # CacheDelete (Some (failure_cache_key (rule cb)))
                   # (if request_cache_key (rule cb) \<noteq> None
                      then [CacheDelete (request_cache_key (rule cb))] else [])
                   @ [NotifyOpenCircuit, NotifyMaxFailuresExceeded]
            else [])"
    by (simp add: exit_eq new_events_def get_total_failures_eq get_total_requests_eq
        open_circuit_eq notify_max_failures_exceeded_def evs)
  have stored: "cache (snd (aexit cb (Some e) w))
      = (if trips then cache (open_circuit cb w2) else cache w2)"
    by (simp add: exit_eq get_total_failures_eq get_total_requests_eq open_circuit_eq
        notify_max_failures_exceeded_def)
  have scope: "fst (guarded cb body w0) = Inl (if trips then failure_exception cb else e)"
    if "\<not> flag_truthy cb (cache w0)" and "fst (body (cache w0)) = Inl e"
      and "w = (emit ProtectedCall (emit (CacheGet (Some (circuit_cache_key cb))) w0))
                  \<lparr>cache := snd (body (cache w0))\<rparr>"
  proof -
    have "body (cache w0) = (Inl e, snd (body (cache w0)))"
      using that(2) by (simp add: prod_eq_iff)
    with that(1) that(3) result
      guarded_closed [of cb w0 body "Inl e" "snd (body (cache w0))" w]
    show ?thesis
      by simp
  qed
  from result events quiet stored scope show ?thesis
    by simp
qed

theorem exit_after_catchable_failure_witness:
  "catch_exceptions (breaker count_rule) ''IOError''
   \<and> \<not> flag_truthy (breaker count_rule) (cache w_counting)
   \<and> fst (failing (cache w_counting)) = Inl ''IOError''
   \<and> fst (guarded (breaker count_rule) failing w_counting) = Inl ''CircuitOpen''
   \<and> fst (guarded (breaker count_rule) failing w_closed) = Inl ''IOError''"
proof -
  have catchable: "catch_exceptions (breaker count_rule) ''IOError''"
    by (simp add: breaker_def)
  have closed: "\<not> flag_truthy (breaker count_rule) (cache w_counting)"
    "\<not> flag_truthy (breaker count_rule) (cache w_closed)"
    by (simp_all add: flag_truthy_def counter_value_def breaker_def w_counting_def w_closed_def)
  have raised: "fst (failing c) = Inl ''IOError''" for c
    by (simp add: failing_def)
  have third: "fst (guarded (breaker count_rule) failing w_counting) = Inl ''CircuitOpen''"
    using exit_after_catchable_failure
      [where cb = "breaker count_rule" and e = "''IOError''" and ?w0.0 = w_counting
        and body = failing
        and w = "(emit ProtectedCall
                   (emit (CacheGet (Some (circuit_cache_key (breaker count_rule)))) w_counting))
                 \<lparr>cache := snd (failing (cache w_counting))\<rparr>",
        OF catchable refl refl] closed(1) raised
    by (simp add: breaker_def count_rule_def w_counting_def failing_def
        increase_request_count_eq increase_failure_count_eq incr_eq get_total_requests_eq
        get_total_failures_eq flag_truthy_def counter_value_def Let_def)
  have first: "fst (guarded (breaker count_rule) failing w_closed) = Inl ''IOError''"
    using exit_after_catchable_failure
      [where cb = "breaker count_rule" and e = "''IOError''" and ?w0.0 = w_closed
        and body = failing
        and w = "(emit ProtectedCall
                   (emit (CacheGet (Some (circuit_cache_key (breaker count_rule)))) w_closed))
                 \<lparr>cache := snd (failing (cache w_closed))\<rparr>",
        OF catchable refl refl] closed(2) raised
    by (simp add: breaker_def count_rule_def w_closed_def failing_def
        increase_request_count_eq increase_failure_count_eq incr_eq get_total_requests_eq
        get_total_failures_eq flag_truthy_def counter_value_def Let_def)
  from catchable closed(1) raised third first show ?thesis
    by blast
qed



section \<open>Opening the circuit\<close>

text \<open>
  Claim C4, as the code has it. Every call of \<open>open_circuit\<close> performs, in this order: the
  write of the flag \<open>1\<close> under \<open>circuit_cache_key\<close> with TTL \<open>circuit_timeout\<close>; then the
  deletion of the failure counter and, when the rule has a request key, of the request
  counter as well, the two deletions issued together, so that every schedule of the call
  has both of them, in one order or the other, between the write and the hook; then the
  notification hook. Whatever the order of the two deletions, the calls made are those of
  the schedule and the cache ends as it does in the order of the source. Afterwards both
  counters are absent and read as \<open>0\<close>; and, provided \<open>circuit_cache_key\<close> is neither the
  failure key nor the request key, the flag is present and the circuit reports open.
\<close>

theorem open_circuit_effect:
  "new_events w (open_circuit cb w)
     = CacheSet (Some (circuit_cache_key cb)) 1 (circuit_timeout cb)
         # CacheDelete (Some (failure_cache_key (rule cb)))
         # (if request_cache_key (rule cb) \<noteq> None
            then [CacheDelete (request_cache_key (rule cb))] else [])
         @ [NotifyOpenCircuit]
   \<and> open_circuit_steps cb \<in> set (open_circuit_schedules cb)
   \<and> run_steps cb (open_circuit_steps cb) w = open_circuit cb w
   \<and> (request_cache_key (rule cb) \<noteq> None \<longrightarrow>
        [SetFlag, DeleteRequests, DeleteFailures, Notify] \<in> set (open_circuit_schedules cb))
   \<and> (\<forall>ss \<in> set (open_circuit_schedules cb).
         (\<exists>ds. ss = SetFlag # ds @ [Notify]
            \<and> set ds = (if request_cache_key (rule cb) \<noteq> None
                        then {DeleteFailures, DeleteRequests} else {DeleteFailures}))
         \<and> new_events w (run_steps cb ss w) = map (step_event cb) ss
         \<and> cache (run_steps cb ss w) = cache (open_circuit cb w))
   \<and> cache (open_circuit cb w) (Some (failure_cache_key (rule cb))) = None
   \<and> (request_cache_key (rule cb) \<noteq> None \<longrightarrow>
        cache (open_circuit cb w) (request_cache_key (rule cb)) = None)
   \<and> fst (get_total_failures cb (open_circuit cb w)) = 0
   \<and> fst (get_total_requests cb (open_circuit cb w)) = 0
   \<and> (circuit_cache_key cb \<noteq> failure_cache_key (rule cb)
        \<and> request_cache_key (rule cb) \<noteq> Some (circuit_cache_key cb) \<longrightarrow>
        cache (open_circuit cb w) (Some (circuit_cache_key cb)) = Some (1, Some (circuit_timeout cb))
        \<and> fst (is_circuit_open cb (open_circuit cb w)))"
proof -
  have events: "new_events w (open_circuit cb w)
     = CacheSet (Some (circuit_cache_key cb)) 1 (circuit_timeout cb)
         # CacheDelete (Some (failure_cache_key (rule cb)))
         # (if request_cache_key (rule cb) \<noteq> None
            then [CacheDelete (request_cache_key (rule cb))] else [])
         @ [NotifyOpenCircuit]"
    by (simp add: open_circuit_eq new_events_def)
  have listed: "open_circuit_steps cb \<in> set (open_circuit_schedules cb)"
    "request_cache_key (rule cb) \<noteq> None \<longrightarrow>
       [SetFlag, DeleteRequests, DeleteFailures, Notify] \<in> set (open_circuit_schedules cb)"
    by (simp_all add: open_circuit_steps_def open_circuit_schedules_def)
  have each: "(\<exists>ds. ss = SetFlag # ds @ [Notify]
            \<and> set ds = (if request_cache_key (rule cb) \<noteq> None
                        then {DeleteFailures, DeleteRequests} else {DeleteFailures}))
         \<and> new_events w (run_steps cb ss w) = map (step_event cb) ss
         \<and> cache (run_steps cb ss w) = cache (open_circuit cb w)"
    if "ss \<in> set (open_circuit_schedules cb)" for ss
    using schedule_shape [OF that] schedule_alone [OF that, of w]
    by (simp add: new_events_def run_steps_trace)
  from events listed each open_circuit_as_steps [of cb w] open_circuit_end_state [of cb w]
  show ?thesis by blast
qed

theorem open_circuit_effect_witness:
  "[SetFlag, DeleteRequests, DeleteFailures, Notify]
     \<in> set (open_circuit_schedules (breaker ratio_rule))
   \<and> cache (run_steps (breaker ratio_rule) [SetFlag, DeleteRequests, DeleteFailures, Notify]
        w_counting) = cache (open_circuit (breaker ratio_rule) w_counting)
   \<and> new_events w_counting
        (run_steps (breaker ratio_rule) [SetFlag, DeleteRequests, DeleteFailures, Notify]
           w_counting)
       = [CacheSet (Some ''circuit'') 1 30, CacheDelete (Some ''requests''),
          CacheDelete (Some ''failures''), NotifyOpenCircuit]
   \<and> cache (open_circuit (breaker ratio_rule) w_counting) (Some ''circuit'')
       = Some (1, Some 30)
   \<and> cache (open_circuit (breaker ratio_rule) w_counting) (Some ''failures'') = None
   \<and> cache (open_circuit (breaker ratio_rule) w_counting) (Some ''requests'') = None
   \<and> fst (is_circuit_open (breaker ratio_rule) (open_circuit (breaker ratio_rule) w_counting))
   \<and> new_events w_counting (open_circuit (breaker ratio_rule) w_counting)
       = [CacheSet (Some ''circuit'') 1 30, CacheDelete (Some ''failures''),
          CacheDelete (Some ''requests''), NotifyOpenCircuit]"
proof -
  have swapped: "[SetFlag, DeleteRequests, DeleteFailures, Notify]
      \<in> set (open_circuit_schedules (breaker ratio_rule))"
    by (simp add: open_circuit_schedules_def breaker_def ratio_rule_def)
  have keys: "circuit_cache_key (breaker ratio_rule) = ''circuit''"
    "failure_cache_key (rule (breaker ratio_rule)) = ''failures''"
    "request_cache_key (rule (breaker ratio_rule)) = Some ''requests''"
    "circuit_timeout (breaker ratio_rule) = 30"
    by (simp_all add: breaker_def ratio_rule_def)
  note effect = open_circuit_effect [of w_counting "breaker ratio_rule"]
  from effect have "\<forall>ss \<in> set (open_circuit_schedules (breaker ratio_rule)).
      new_events w_counting (run_steps (breaker ratio_rule) ss w_counting)
        = map (step_event (breaker ratio_rule)) ss
      \<and> cache (run_steps (breaker ratio_rule) ss w_counting)
        = cache (open_circuit (breaker ratio_rule) w_counting)"
    by blast
  with swapped have other_order:
    "new_events w_counting
       (run_steps (breaker ratio_rule) [SetFlag, DeleteRequests, DeleteFailures, Notify]
          w_counting)
       = map (step_event (breaker ratio_rule)) [SetFlag, DeleteRequests, DeleteFailures, Notify]"
    "cache (run_steps (breaker ratio_rule) [SetFlag, DeleteRequests, DeleteFailures, Notify]
        w_counting) = cache (open_circuit (breaker ratio_rule) w_counting)"
    by blast+
  from effect swapped other_order show ?thesis
    by (simp add: keys)
qed

text \<open>
  The claim C4 as worded, for every call, fails when the breaker is configured with the
  key of the failure counter as its \<open>circuit_cache_key\<close>: the deletion that follows the
  write removes the flag, and the circuit reports closed after \<open>open_circuit\<close>.
\<close>

theorem open_circuit_aliased_keys_counterexample:
  "cache (open_circuit aliased_breaker w_closed) (Some (circuit_cache_key aliased_breaker)) = None
   \<and> \<not> fst (is_circuit_open aliased_breaker (open_circuit aliased_breaker w_closed))"
  by (simp add: aliased_breaker_def breaker_def count_rule_def w_closed_def open_circuit_eq
      is_circuit_open_eq flag_truthy_def counter_value_def)

text \<open>
  Claim C5, as the code has it. Opening the circuit is idempotent on the cache: from every
  starting state, two calls of \<open>open_circuit\<close> in sequence leave the cache as one call
  does, and so does every interleaving of the steps of two racing calls, whichever
  schedule each of them takes. In that end state both counters are cleared, and the flag
  is set with \<open>circuit_timeout\<close> provided \<open>circuit_cache_key\<close> is neither the failure key
  nor the request key. The repeated call raises nothing: \<open>open_circuit\<close> has no raise of
  its own, its write is unconditional, and its deletions find their keys absent and leave
  the cache as it is.
\<close>

theorem open_circuit_idempotent:
  "cache (open_circuit cb (open_circuit cb w)) = cache (open_circuit cb w)
   \<and> (\<forall>xs \<in> set (open_circuit_schedules cb). \<forall>ys \<in> set (open_circuit_schedules cb).
        \<forall>zs \<in> shuffles xs ys. cache (run_steps cb zs w) = cache (open_circuit cb w))
   \<and> cache (open_circuit cb (open_circuit cb w)) (Some (failure_cache_key (rule cb))) = None
   \<and> (request_cache_key (rule cb) \<noteq> None \<longrightarrow>
        cache (open_circuit cb (open_circuit cb w)) (request_cache_key (rule cb)) = None)
   \<and> fst (get_total_failures cb (open_circuit cb (open_circuit cb w))) = 0
   \<and> fst (get_total_requests cb (open_circuit cb (open_circuit cb w))) = 0
   \<and> (circuit_cache_key cb \<noteq> failure_cache_key (rule cb)
        \<and> request_cache_key (rule cb) \<noteq> Some (circuit_cache_key cb) \<longrightarrow>
        cache (open_circuit cb (open_circuit cb w)) (Some (circuit_cache_key cb))
          = Some (1, Some (circuit_timeout cb))
        \<and> fst (is_circuit_open cb (open_circuit cb (open_circuit cb w))))
   \<and> cache (cache_delete (Some (failure_cache_key (rule cb))) (open_circuit cb w))
       = cache (open_circuit cb w)
   \<and> (request_cache_key (rule cb) \<noteq> None \<longrightarrow>
        cache (cache_delete (request_cache_key (rule cb)) (open_circuit cb w))
          = cache (open_circuit cb w))"
proof -
  have twice: "cache (open_circuit cb (open_circuit cb w)) = cache (open_circuit cb w)"
    by (auto simp add: open_circuit_eq fun_eq_iff)
  have racing: "\<forall>xs \<in> set (open_circuit_schedules cb). \<forall>ys \<in> set (open_circuit_schedules cb).
        \<forall>zs \<in> shuffles xs ys. cache (run_steps cb zs w) = cache (open_circuit cb w)"
    using racing_schedules by blast
  have again: "cache (cache_delete (Some (failure_cache_key (rule cb))) (open_circuit cb w))
       = cache (open_circuit cb w)"
    "request_cache_key (rule cb) \<noteq> None \<longrightarrow>
        cache (cache_delete (request_cache_key (rule cb)) (open_circuit cb w))
          = cache (open_circuit cb w)"
    by (auto simp add: open_circuit_eq cache_delete_def fun_eq_iff)
  from twice racing again open_circuit_end_state [of cb "open_circuit cb w"]
  show ?thesis by blast
qed

theorem open_circuit_idempotent_witness:
  "[SetFlag, SetFlag, DeleteRequests, DeleteFailures, DeleteFailures, DeleteRequests,
    Notify, Notify]
     \<in> shuffles [SetFlag, DeleteFailures, DeleteRequests, Notify]
         [SetFlag, DeleteRequests, DeleteFailures, Notify]
   \<and> cache (run_steps (breaker ratio_rule)
        [SetFlag, SetFlag, DeleteRequests, DeleteFailures, DeleteFailures, DeleteRequests,
         Notify, Notify] w_counting)
       = cache (open_circuit (breaker ratio_rule) w_counting)
   \<and> cache (open_circuit (breaker ratio_rule) (open_circuit (breaker ratio_rule) w_counting))
       = cache (open_circuit (breaker ratio_rule) w_counting)
   \<and> cache (open_circuit (breaker ratio_rule) (open_circuit (breaker ratio_rule) w_counting))
        (Some ''circuit'') = Some (1, Some 30)"
proof -
  have mixed:
    "[SetFlag, SetFlag, DeleteRequests, DeleteFailures, DeleteFailures, DeleteRequests,
      Notify, Notify]
       \<in> shuffles [SetFlag, DeleteFailures, DeleteRequests, Notify]
           [SetFlag, DeleteRequests, DeleteFailures, Notify]"
    by (simp add: Cons_in_shuffles_iff)
  have schedules: "[SetFlag, DeleteFailures, DeleteRequests, Notify]
      \<in> set (open_circuit_schedules (breaker ratio_rule))"
    "[SetFlag, DeleteRequests, DeleteFailures, Notify]
      \<in> set (open_circuit_schedules (breaker ratio_rule))"
    by (simp_all add: open_circuit_schedules_def breaker_def ratio_rule_def)
  have keys: "circuit_cache_key (breaker ratio_rule) = ''circuit''"
    "failure_cache_key (rule (breaker ratio_rule)) = ''failures''"
    "request_cache_key (rule (breaker ratio_rule)) = Some ''requests''"
    "circuit_timeout (breaker ratio_rule) = 30"
    by (simp_all add: breaker_def ratio_rule_def)
  note idem = open_circuit_idempotent [of "breaker ratio_rule" w_counting]
  from idem have "\<forall>xs \<in> set (open_circuit_schedules (breaker ratio_rule)).
      \<forall>ys \<in> set (open_circuit_schedules (breaker ratio_rule)).
        \<forall>zs \<in> shuffles xs ys. cache (run_steps (breaker ratio_rule) zs w_counting)
          = cache (open_circuit (breaker ratio_rule) w_counting)"
    by blast
  with schedules mixed have raced:
    "cache (run_steps (breaker ratio_rule)
        [SetFlag, SetFlag, DeleteRequests, DeleteFailures, DeleteFailures, DeleteRequests,
         Notify, Notify] w_counting)
       = cache (open_circuit (breaker ratio_rule) w_counting)"
    by blast
  have distinct_keys:
    "circuit_cache_key (breaker ratio_rule) \<noteq> failure_cache_key (rule (breaker ratio_rule))
     \<and> request_cache_key (rule (breaker ratio_rule))
         \<noteq> Some (circuit_cache_key (breaker ratio_rule))"
    by (simp add: keys)
  with idem have
    "cache (open_circuit (breaker ratio_rule) (open_circuit (breaker ratio_rule) w_counting))
        (Some (circuit_cache_key (breaker ratio_rule)))
       = Some (1, Some (circuit_timeout (breaker ratio_rule)))"
    by blast
  then have flag:
    "cache (open_circuit (breaker ratio_rule) (open_circuit (breaker ratio_rule) w_counting))
        (Some ''circuit'') = Some (1, Some 30)"
    by (simp only: keys)
  from idem have twice:
    "cache (open_circuit (breaker ratio_rule) (open_circuit (breaker ratio_rule) w_counting))
       = cache (open_circuit (breaker ratio_rule) w_counting)"
    by blast
  from mixed raced twice flag show ?thesis
    by blast
qed

text \<open>
  The claim C5 as worded, with the flag set in the end state of every configuration, fails
  for the breaker whose \<open>circuit_cache_key\<close> is the key of the failure counter: after two
  calls, as after one, the flag is absent.
\<close>

theorem open_circuit_twice_aliased_keys_counterexample:
  "cache (open_circuit aliased_breaker (open_circuit aliased_breaker w_closed))
     (Some (circuit_cache_key aliased_breaker)) = None
   \<and> \<not> fst (is_circuit_open aliased_breaker
              (open_circuit aliased_breaker (open_circuit aliased_breaker w_closed)))"
  by (simp add: aliased_breaker_def breaker_def count_rule_def w_closed_def open_circuit_eq
      is_circuit_open_eq flag_truthy_def counter_value_def)

end
